theory Spec2Isabelle
  imports Main "HOL-Library.Word" "HOL-Library.Monad_Syntax"
begin

unbundle bit_operations_syntax

section \<open>Go primitives used by protocol/upd.go\<close>

text \<open>
  A Go run-time panic (slice bounds out of range, index out of range) is the value
  \<open>None\<close> of the outer \<open>option\<close> of every operation below; the function's own results
  (a \<open>nil\<close> pointer, an \<open>error\<close>) are ordinary values inside \<open>Some\<close>.
  A byte buffer is the list of its \<open>len\<close> bytes. Go's \<open>int\<close> is taken to be 64 bits wide,
  so that \<open>int(x)\<close> of a \<open>uint16\<close> or \<open>uint32\<close> is the number \<open>unat x\<close> and the index
  arithmetic of the source does not overflow. The calls of the logger (\<open>logrus.Warn\<close>)
  are left out: they do not change what a function returns.
\<close>

type_synonym byte = "8 word"

text \<open>\<open>make([]byte, n)\<close>: \<open>n\<close> zero bytes, capacity \<open>n\<close>.\<close>

definition make_bytes :: "nat \<Rightarrow> byte list" where
  "make_bytes n = replicate n 0"

text \<open>\<open>buf[lo:]\<close> and \<open>buf[lo:hi]\<close> on a buffer without spare capacity.\<close>

definition slice_from :: "'a list \<Rightarrow> nat \<Rightarrow> 'a list option" where
  "slice_from buf lo = (if lo \<le> length buf then Some (drop lo buf) else None)"

definition slice_range :: "'a list \<Rightarrow> nat \<Rightarrow> nat \<Rightarrow> 'a list option" where
  "slice_range buf lo hi =
     (if lo \<le> hi \<and> hi \<le> length buf then Some (take (hi - lo) (drop lo buf)) else None)"

text \<open>
  A sub-slice shares the backing array of the buffer it was cut from: a function that
  writes into \<open>buf[lo:]\<close> or \<open>buf[lo:hi]\<close> changes \<open>buf\<close> in place. \<open>f\<close> is the write,
  given the sub-slice and returning it as written (same length).
\<close>

definition write_from :: "'a list \<Rightarrow> nat \<Rightarrow> ('a list \<Rightarrow> 'a list option) \<Rightarrow> 'a list option" where
  "write_from buf lo f =
     do { s \<leftarrow> slice_from buf lo; s' \<leftarrow> f s; Some (take lo buf @ s') }"

definition write_range :: "'a list \<Rightarrow> nat \<Rightarrow> nat \<Rightarrow> ('a list \<Rightarrow> 'a list option) \<Rightarrow> 'a list option" where
  "write_range buf lo hi f =
     do { s \<leftarrow> slice_range buf lo hi; s' \<leftarrow> f s; Some (take lo buf @ s' @ drop hi buf) }"

text \<open>The builtin \<open>copy(dst, src)\<close>: copies \<open>min(len(dst), len(src))\<close> elements, never panics.\<close>

definition copy_go :: "'a list \<Rightarrow> 'a list \<Rightarrow> 'a list option" where
  "copy_go dst src = (let n = min (length dst) (length src) in Some (take n src @ drop n dst))"

subsection \<open>encoding/binary, LittleEndian\<close>

text \<open>
  \<open>Uint16(b) = uint16(b[0]) | uint16(b[1])<<8\<close> after the bounds check \<open>_ = b[1]\<close>,
  and likewise for 32 and 64 bits; \<open>PutUint16(b, v)\<close> stores \<open>byte(v)\<close>, \<open>byte(v>>8)\<close>
  after the same check.
\<close>

definition LittleEndian_Uint16 :: "byte list \<Rightarrow> 16 word option" where
  "LittleEndian_Uint16 b =
     (if length b < 2 then None
      else Some (ucast (b ! 0) OR push_bit 8 (ucast (b ! 1))))"

definition LittleEndian_Uint32 :: "byte list \<Rightarrow> 32 word option" where
  "LittleEndian_Uint32 b =
     (if length b < 4 then None
      else Some (ucast (b ! 0) OR push_bit 8 (ucast (b ! 1)) OR push_bit 16 (ucast (b ! 2))
                 OR push_bit 24 (ucast (b ! 3))))"

definition LittleEndian_Uint64 :: "byte list \<Rightarrow> 64 word option" where
  "LittleEndian_Uint64 b =
     (if length b < 8 then None
      else Some (ucast (b ! 0) OR push_bit 8 (ucast (b ! 1)) OR push_bit 16 (ucast (b ! 2))
                 OR push_bit 24 (ucast (b ! 3)) OR push_bit 32 (ucast (b ! 4))
                 OR push_bit 40 (ucast (b ! 5)) OR push_bit 48 (ucast (b ! 6))
                 OR push_bit 56 (ucast (b ! 7))))"

text \<open>The bytes the three \<open>Put\<close> functions store, lowest byte first.\<close>

definition le16 :: "16 word \<Rightarrow> byte list" where
  "le16 v = [ucast v, ucast (drop_bit 8 v)]"

definition le32 :: "32 word \<Rightarrow> byte list" where
  "le32 v = [ucast v, ucast (drop_bit 8 v), ucast (drop_bit 16 v), ucast (drop_bit 24 v)]"

definition le64 :: "64 word \<Rightarrow> byte list" where
  "le64 v = [ucast v, ucast (drop_bit 8 v), ucast (drop_bit 16 v), ucast (drop_bit 24 v),
             ucast (drop_bit 32 v), ucast (drop_bit 40 v), ucast (drop_bit 48 v),
             ucast (drop_bit 56 v)]"

definition LittleEndian_PutUint16 :: "byte list \<Rightarrow> 16 word \<Rightarrow> byte list option" where
  "LittleEndian_PutUint16 b v = (if length b < 2 then None else Some (le16 v @ drop 2 b))"

definition LittleEndian_PutUint32 :: "byte list \<Rightarrow> 32 word \<Rightarrow> byte list option" where
  "LittleEndian_PutUint32 b v = (if length b < 4 then None else Some (le32 v @ drop 4 b))"

definition LittleEndian_PutUint64 :: "byte list \<Rightarrow> 64 word \<Rightarrow> byte list option" where
  "LittleEndian_PutUint64 b v = (if length b < 8 then None else Some (le64 v @ drop 8 b))"

section \<open>The envelope: UpdPayload\<close>

text \<open>
  A Go slice value that may have spare capacity: \<open>elems\<close> are its \<open>len\<close> elements, \<open>spare\<close>
  the elements of the backing array between \<open>len\<close> and \<open>cap\<close>. The slice expression
  \<open>s[:n]\<close> is checked against the capacity, not the length.
\<close>

record 'a go_slice =
  elems :: "'a list"
  spare :: "'a list"

definition slice_to :: "'a go_slice \<Rightarrow> nat \<Rightarrow> 'a list option" where
  "slice_to s n =
     (if n \<le> length (elems s) + length (spare s) then Some (take n (elems s @ spare s))
      else None)"

record UpdPayload =
  Operation :: byte
  DataLength :: "16 word"
  Data :: "byte go_slice"

datatype error = PayloadInvalid

text \<open>\<open>func (u *UpdPayload) Bytes() []byte\<close>\<close>

definition UpdPayload_Bytes :: "UpdPayload \<Rightarrow> byte list option" where
  "UpdPayload_Bytes u =
     (let buf = make_bytes (3 + unat (DataLength u)); idx = 0 in
      if \<not> idx < length buf then None
      else
        let buf = buf[idx := Operation u]; idx = idx + 1 in
        do {
          buf \<leftarrow> write_range buf idx (idx + 2) (\<lambda>b. LittleEndian_PutUint16 b (DataLength u));
          let idx = idx + 2;
          src \<leftarrow> slice_to (Data u) (unat (DataLength u));
          buf \<leftarrow> write_from buf idx (\<lambda>b. copy_go b src);
          Some buf
        })"

text \<open>
  \<open>func ParseUpdPayload(buf []byte) (*UpdPayload, error)\<close>: \<open>Inl\<close> is the returned
  error (with a nil payload), \<open>Inr\<close> the payload (with a nil error). The returned
  \<open>Data\<close> is cut from \<open>buf\<close>, so the bytes of \<open>buf\<close> after it are its spare capacity.
\<close>

definition ParseUpdPayload :: "byte list \<Rightarrow> (error + UpdPayload) option" where
  "ParseUpdPayload buf =
     (let idx = 0 in
      if length buf < 3 then Some (Inl PayloadInvalid)
      else if \<not> idx < length buf then None
      else
        let op = buf ! idx; idx = idx + 1 in
        do {
          lb \<leftarrow> slice_range buf idx (idx + 2);
          dl \<leftarrow> LittleEndian_Uint16 lb;
          let idx = idx + 2;
          if int (length buf) - int idx < int (unat dl) then Some (Inl PayloadInvalid)
          else if length buf < idx + unat dl then Some (Inl PayloadInvalid)
          else do {
            d \<leftarrow> slice_range buf idx (idx + unat dl);
            Some (Inr \<lparr>Operation = op, DataLength = dl,
                       Data = \<lparr>elems = d, spare = drop (idx + unat dl) buf\<rparr>\<rparr>)
          }
        })"

section \<open>The list entries\<close>

text \<open>
  \<open>Contact\<close> and \<open>Message\<close> are types of the package with codecs of their own
  (\<open>Bytes\<close>, \<open>ParseContact\<close>, \<open>ParseMessage\<close>) outside this file. They are type
  parameters \<open>'c\<close> and \<open>'m\<close> here, and every function that calls a codec takes it as
  its first argument: \<open>ParseMessage\<close> returns the message or nil (its second result is
  discarded by the only caller), \<open>ParseContact\<close> returns the contact or nil and the
  remaining buffer. Both are taken to return (they do not panic).
\<close>

record 'm UpdPayloadEntry =
  Length :: "32 word"
  Message :: 'm

record 'c UpdRequestCacheEntry =
  SeqCounter :: "64 word"
  Source :: 'c

record 'c UpdPayloadCacheRequest =
  NumEntries :: "32 word"
  Entries :: "'c UpdRequestCacheEntry list"

record 'm UpdPayloadCacheResponse =
  NumEntries :: "32 word"
  Entries :: "'m UpdPayloadEntry list"

text \<open>\<open>func (e *UpdPayloadEntry) Bytes() []byte\<close>\<close>

definition UpdPayloadEntry_Bytes :: "('m \<Rightarrow> byte list) \<Rightarrow> 'm UpdPayloadEntry \<Rightarrow> byte list option" where
  "UpdPayloadEntry_Bytes MessageBytes e =
     (let msb = MessageBytes (Message e); lm = length msb;
          buf = make_bytes (4 + lm); idx = 0 in
      do {
        buf \<leftarrow> write_from buf idx (\<lambda>b. LittleEndian_PutUint32 b (of_nat lm));
        let idx = idx + 4;
        buf \<leftarrow> write_from buf idx (\<lambda>b. copy_go b msb);
        Some buf
      })"

text \<open>
  \<open>func ParsePayloadEntry(buf []byte) (*UpdPayloadEntry, []byte)\<close>: the entry or nil,
  and the remaining buffer (a nil slice is the empty list).
\<close>

definition ParsePayloadEntry ::
  "(byte list \<Rightarrow> 'm option) \<Rightarrow> byte list \<Rightarrow> ('m UpdPayloadEntry option \<times> byte list) option" where
  "ParsePayloadEntry ParseMessage buf =
     (let idx = 0 in
      if length buf < 4 then Some (None, [])
      else do {
        lb \<leftarrow> slice_range buf idx (idx + 4);
        len \<leftarrow> LittleEndian_Uint32 lb;
        let idx = idx + 4;
        if length buf < idx + unat len then Some (None, [])
        else do {
          mb \<leftarrow> slice_from buf idx;
          case ParseMessage mb of
            None \<Rightarrow> do { r \<leftarrow> slice_from buf (idx + unat len); Some (None, r) }
          | Some msg \<Rightarrow>
              do { r \<leftarrow> slice_from buf (idx + unat len);
                   Some (Some \<lparr>Length = len, Message = msg\<rparr>, r) }
        }
      })"

text \<open>\<open>func (e *UpdRequestCacheEntry) Bytes() []byte\<close>\<close>

definition UpdRequestCacheEntry_Bytes ::
  "('c \<Rightarrow> byte list) \<Rightarrow> 'c UpdRequestCacheEntry \<Rightarrow> byte list option" where
  "UpdRequestCacheEntry_Bytes ContactBytes e =
     (let ct = ContactBytes (Source e);
          buf = make_bytes (length ct + 4); idx = 0 in
      do {
        buf \<leftarrow> write_range buf idx (idx + 8) (\<lambda>b. LittleEndian_PutUint64 b (SeqCounter e));
        let idx = idx + 8;
        buf \<leftarrow> write_from buf idx (\<lambda>b. copy_go b ct);
        Some buf
      })"

text \<open>\<open>func ParseCacheEntry(buf []byte) (*UpdRequestCacheEntry, []byte)\<close>\<close>

definition ParseCacheEntry ::
  "(byte list \<Rightarrow> 'c option \<times> byte list) \<Rightarrow> byte list
     \<Rightarrow> ('c UpdRequestCacheEntry option \<times> byte list) option" where
  "ParseCacheEntry ParseContact buf =
     (let idx = 0 in
      if length buf < 9 then Some (None, [])
      else do {
        sb \<leftarrow> slice_range buf idx (idx + 8);
        seq \<leftarrow> LittleEndian_Uint64 sb;
        let idx = idx + 8;
        cb \<leftarrow> slice_from buf idx;
        case ParseContact cb of
          (None, rbuf) \<Rightarrow> Some (None, [])
        | (Some ct, rbuf) \<Rightarrow> Some (Some \<lparr>SeqCounter = seq, Source = ct\<rparr>, rbuf)
      })"

section \<open>The list payloads\<close>

text \<open>
  The two \<open>Bytes\<close> methods share their loops: the first encodes every entry, appending
  its bytes to the list of buffers and adding its length to \<open>tlen\<close>; the second copies
  the buffers into \<open>buf\<close> one after the other, from \<open>idx\<close> on.
\<close>

fun encode_entries ::
  "('e \<Rightarrow> byte list option) \<Rightarrow> 'e list \<Rightarrow> byte list list \<Rightarrow> nat \<Rightarrow> (byte list list \<times> nat) option" where
  "encode_entries enc [] ent tlen = Some (ent, tlen)"
| "encode_entries enc (c # cs) ent tlen =
     do { e \<leftarrow> enc c; encode_entries enc cs (ent @ [e]) (tlen + length e) }"

fun copy_entries :: "byte list \<Rightarrow> nat \<Rightarrow> byte list list \<Rightarrow> byte list option" where
  "copy_entries buf idx [] = Some buf"
| "copy_entries buf idx (e # es) =
     do { buf' \<leftarrow> write_from buf idx (\<lambda>b. copy_go b e); copy_entries buf' (idx + length e) es }"

text \<open>\<open>func (r *UpdPayloadCacheRequest) Bytes() []byte\<close>\<close>

definition UpdPayloadCacheRequest_Bytes ::
  "('c \<Rightarrow> byte list) \<Rightarrow> 'c UpdPayloadCacheRequest \<Rightarrow> byte list option" where
  "UpdPayloadCacheRequest_Bytes ContactBytes r =
     do {
       (ent, tlen) \<leftarrow> encode_entries (UpdRequestCacheEntry_Bytes ContactBytes)
                         (UpdPayloadCacheRequest.Entries r) [] 0;
       let buf = make_bytes (tlen + 4);
       let idx = 0;
       buf \<leftarrow> write_from buf idx
                (\<lambda>b. LittleEndian_PutUint32 b (UpdPayloadCacheRequest.NumEntries r));
       let idx = idx + 4;
       copy_entries buf idx ent
     }"

text \<open>\<open>func (r *UpdPayloadCacheResponse) Bytes() []byte\<close>\<close>

definition UpdPayloadCacheResponse_Bytes ::
  "('m \<Rightarrow> byte list) \<Rightarrow> 'm UpdPayloadCacheResponse \<Rightarrow> byte list option" where
  "UpdPayloadCacheResponse_Bytes MessageBytes r =
     do {
       (mbufs, tlen) \<leftarrow> encode_entries (UpdPayloadEntry_Bytes MessageBytes)
                           (UpdPayloadCacheResponse.Entries r) [] 0;
       let buf = make_bytes (tlen + 4);
       let idx = 0;
       buf \<leftarrow> write_range buf idx (idx + 4)
                (\<lambda>b. LittleEndian_PutUint32 b (UpdPayloadCacheResponse.NumEntries r));
       let idx = idx + 4;
       copy_entries buf idx mbufs
     }"

text \<open>
  \<open>func ParsePayloadCacheResponse(buf []byte) *UpdPayloadCacheResponse\<close>.
  The state of its loop is \<open>(buf, idx, pcr.Entries)\<close>; \<open>response_iteration\<close> is one run
  of the loop body, \<open>response_loop\<close> runs it for the remaining number of iterations
  (\<open>int(pcr.NumEntries) - i\<close>). The result is nil (\<open>None\<close>) or the response.
\<close>

definition response_iteration ::
  "(byte list \<Rightarrow> 'm option) \<Rightarrow> byte list \<times> nat \<times> 'm UpdPayloadEntry list
     \<Rightarrow> (byte list \<times> nat \<times> 'm UpdPayloadEntry list) option" where
  "response_iteration ParseMessage st =
     (case st of (buf, idx, entries) \<Rightarrow>
        do {
          s \<leftarrow> slice_from buf idx;
          (m, rbuf) \<leftarrow> ParsePayloadEntry ParseMessage s;
          case m of
            None \<Rightarrow> Some (buf, idx, entries)
          | Some e \<Rightarrow> Some (rbuf, 0, entries @ [e])
        })"

fun response_loop ::
  "(byte list \<Rightarrow> 'm option) \<Rightarrow> nat \<Rightarrow> byte list \<times> nat \<times> 'm UpdPayloadEntry list
     \<Rightarrow> (byte list \<times> nat \<times> 'm UpdPayloadEntry list) option" where
  "response_loop ParseMessage 0 st = Some st"
| "response_loop ParseMessage (Suc k) st =
     do { st' \<leftarrow> response_iteration ParseMessage st; response_loop ParseMessage k st' }"

definition ParsePayloadCacheResponse ::
  "(byte list \<Rightarrow> 'm option) \<Rightarrow> byte list \<Rightarrow> 'm UpdPayloadCacheResponse option option" where
  "ParsePayloadCacheResponse ParseMessage buf =
     (let idx = 0 in
      if length buf < 4 then Some None
      else do {
        nb \<leftarrow> slice_range buf idx (idx + 4);
        n \<leftarrow> LittleEndian_Uint32 nb;
        let idx = idx + 4;
        (buf', idx', entries) \<leftarrow> response_loop ParseMessage (unat n) (buf, idx, []);
        Some (Some \<lparr>NumEntries = n, Entries = entries\<rparr>)
      })"

text \<open>
  \<open>func ParsePayloadCacheRequest(buf []byte) *UpdPayloadCacheRequest\<close>.
  The state of its loop is \<open>(buf, cr.Entries)\<close>; an iteration also says whether it left
  the loop by \<open>break\<close>.
\<close>

definition request_iteration ::
  "(byte list \<Rightarrow> 'c option \<times> byte list) \<Rightarrow> byte list \<times> 'c UpdRequestCacheEntry list
     \<Rightarrow> (bool \<times> byte list \<times> 'c UpdRequestCacheEntry list) option" where
  "request_iteration ParseContact st =
     (case st of (buf, entries) \<Rightarrow>
        do {
          (e, rbuf) \<leftarrow> ParseCacheEntry ParseContact buf;
          case e of
            None \<Rightarrow> Some (False, buf, entries)
          | Some x \<Rightarrow> Some (length rbuf = 0, rbuf, entries @ [x])
        })"

fun request_loop ::
  "(byte list \<Rightarrow> 'c option \<times> byte list) \<Rightarrow> nat \<Rightarrow> byte list \<times> 'c UpdRequestCacheEntry list
     \<Rightarrow> (byte list \<times> 'c UpdRequestCacheEntry list) option" where
  "request_loop ParseContact 0 st = Some st"
| "request_loop ParseContact (Suc k) st =
     do {
       (brk, st') \<leftarrow> request_iteration ParseContact st;
       if brk then Some st' else request_loop ParseContact k st'
     }"

definition ParsePayloadCacheRequest ::
  "(byte list \<Rightarrow> 'c option \<times> byte list) \<Rightarrow> byte list \<Rightarrow> 'c UpdPayloadCacheRequest option option" where
  "ParsePayloadCacheRequest ParseContact buf =
     (let idx = 0 in
      if length buf < 4 then Some None
      else do {
        nb \<leftarrow> slice_range buf idx (idx + 4);
        n \<leftarrow> LittleEndian_Uint32 nb;
        let idx = idx + 4;
        buf \<leftarrow> slice_from buf idx;
        (buf', entries) \<leftarrow> request_loop ParseContact (unat n) (buf, []);
        Some (Some \<lparr>UpdPayloadCacheRequest.NumEntries = n,
                     UpdPayloadCacheRequest.Entries = entries\<rparr>)
      })"

section \<open>Codec instances for concrete buffers\<close>

text \<open>
  Modelled from the spec: the \<open>Contact\<close> and \<open>Message\<close> codecs are not in
  protocol/upd.go, and section 6 of the specification fixes only their contracts
  (\<open>encode() -> bytes\<close>; \<open>decode(bytes)\<close> returning the value or none, and for a
  contact the remaining bytes). The two codecs below are small instances of these
  contracts, used where a function above is run on a concrete buffer: a message is one
  byte behind the tag \<open>0x4D\<close>, a contact one byte behind the tag \<open>0x43\<close> and padded
  to six bytes; a buffer that does not start with the tag, or is too short, does not decode.
\<close>

datatype demo_message = DemoMessage byte

fun demo_MessageBytes :: "demo_message \<Rightarrow> byte list" where
  "demo_MessageBytes (DemoMessage x) = [0x4D, x]"

fun demo_ParseMessage :: "byte list \<Rightarrow> demo_message option" where
  "demo_ParseMessage (t # x # rest) = (if t = 0x4D then Some (DemoMessage x) else None)"
| "demo_ParseMessage _ = None"

datatype demo_contact = DemoContact byte

fun demo_ContactBytes :: "demo_contact \<Rightarrow> byte list" where
  "demo_ContactBytes (DemoContact x) = [0x43, x, 0, 0, 0, 0]"

fun demo_ParseContact :: "byte list \<Rightarrow> demo_contact option \<times> byte list" where
  "demo_ParseContact (t # x # p1 # p2 # p3 # p4 # rest) =
     (if t = 0x43 then (Some (DemoContact x), rest) else (None, []))"
| "demo_ParseContact _ = (None, [])"

section \<open>Notions of the wire format used to state the properties\<close>

text \<open>
  The data length an envelope buffer declares: the two bytes after the operation byte,
  read as a little-endian number.
\<close>

definition declared_data_length :: "byte list \<Rightarrow> nat" where
  "declared_data_length buf = unat (buf ! 1) + 256 * unat (buf ! 2)"

text \<open>
  A cache-request entry as it stands on the wire: the eight bytes of the sequence
  counter, then the bytes of the contact.
\<close>

definition request_entry_wire :: "('c \<Rightarrow> byte list) \<Rightarrow> 'c UpdRequestCacheEntry \<Rightarrow> byte list" where
  "request_entry_wire ContactBytes e = le64 (SeqCounter e) @ ContactBytes (Source e)"

text \<open>
  The entries of a cache response that parse one after the other, up to the first of
  the \<open>k\<close> claimed entries that does not.
\<close>

fun parseable_prefix ::
  "(byte list \<Rightarrow> 'm option) \<Rightarrow> nat \<Rightarrow> byte list \<Rightarrow> 'm UpdPayloadEntry list" where
  "parseable_prefix ParseMessage 0 buf = []"
| "parseable_prefix ParseMessage (Suc k) buf =
     (case ParsePayloadEntry ParseMessage buf of
        Some (Some e, rbuf) \<Rightarrow> e # parseable_prefix ParseMessage k rbuf
      | _ \<Rightarrow> [])"

section \<open>Facts about the primitives and the entry codecs\<close>

lemma length_le16 [simp]: "length (le16 v) = 2" by (simp add: le16_def)
lemma length_le32 [simp]: "length (le32 v) = 4" by (simp add: le32_def)
lemma length_le64 [simp]: "length (le64 v) = 8" by (simp add: le64_def)

lemma Uint16_le16: "LittleEndian_Uint16 (le16 v) = Some v"
  unfolding LittleEndian_Uint16_def le16_def
  by simp (rule bit_word_eqI, auto simp: bit_simps)

lemma Uint32_le32: "LittleEndian_Uint32 (le32 v) = Some v"
  unfolding LittleEndian_Uint32_def le32_def
  apply simp
  apply (rule bit_word_eqI)
  apply (auto simp: bit_simps)
  subgoal for n by (cases "n < 24") auto
  done

lemma Uint64_le64: "LittleEndian_Uint64 (le64 v) = Some v"
proof -
  have "ucast (ucast v :: byte) OR push_bit 8 (ucast (ucast (drop_bit 8 v) :: byte))
        OR push_bit 16 (ucast (ucast (drop_bit 16 v) :: byte))
        OR push_bit 24 (ucast (ucast (drop_bit 24 v) :: byte))
        OR push_bit 32 (ucast (ucast (drop_bit 32 v) :: byte))
        OR push_bit 40 (ucast (ucast (drop_bit 40 v) :: byte))
        OR push_bit 48 (ucast (ucast (drop_bit 48 v) :: byte))
        OR push_bit 56 (ucast (ucast (drop_bit 56 v) :: byte)) = v" (is "?L = v")
  proof (rule bit_word_eqI)
    fix n assume "n < LENGTH(64)"
    then consider "n < 8" | "8 \<le> n" "n < 16" | "16 \<le> n" "n < 24" | "24 \<le> n" "n < 32"
      | "32 \<le> n" "n < 40" | "40 \<le> n" "n < 48" | "48 \<le> n" "n < 56" | "56 \<le> n" "n < 64"
      by (simp, linarith)
    then show "bit ?L n = bit v n"
      by cases (simp_all add: bit_simps less_diff_conv2)
  qed
  then show ?thesis
    by (simp add: LittleEndian_Uint64_def le64_def)
qed

lemma Uint32_total: "4 \<le> length b \<Longrightarrow> \<exists>v. LittleEndian_Uint32 b = Some v"
  by (simp add: LittleEndian_Uint32_def)

lemma Uint64_total: "8 \<le> length b \<Longrightarrow> \<exists>v. LittleEndian_Uint64 b = Some v"
  by (simp add: LittleEndian_Uint64_def)

lemma slice_range_0: "n \<le> length buf \<Longrightarrow> slice_range buf 0 n = Some (take n buf)"
  by (simp add: slice_range_def)

lemma slice_from_le: "n \<le> length buf \<Longrightarrow> slice_from buf n = Some (drop n buf)"
  by (simp add: slice_from_def)

lemma UpdPayloadEntry_Bytes_eq:
  "UpdPayloadEntry_Bytes MB e = Some (le32 (of_nat (length (MB (Message e)))) @ MB (Message e))"
proof -
  define msb where "msb = MB (Message e)"
  have mk: "make_bytes (4 + length msb) = 0 # 0 # 0 # 0 # replicate (length msb) 0"
    by (simp add: make_bytes_def eval_nat_numeral)
  show ?thesis
    unfolding UpdPayloadEntry_Bytes_def msb_def[symmetric] Let_def mk
    by (simp add: write_from_def slice_from_def copy_go_def LittleEndian_PutUint32_def)
qed

lemma ParsePayloadEntry_short:
  "length buf < 4 \<Longrightarrow> ParsePayloadEntry PM buf = Some (None, [])"
  by (simp add: ParsePayloadEntry_def)

lemma ParsePayloadEntry_eq:
  assumes "4 \<le> length buf" and "LittleEndian_Uint32 (take 4 buf) = Some L"
  shows "ParsePayloadEntry PM buf =
     (if length buf < 4 + unat L then Some (None, [])
      else case PM (drop 4 buf) of
             None \<Rightarrow> Some (None, drop (4 + unat L) buf)
           | Some m \<Rightarrow> Some (Some \<lparr>Length = L, Message = m\<rparr>, drop (4 + unat L) buf))"
  using assms
  by (simp add: ParsePayloadEntry_def slice_range_0 slice_from_le split: option.splits)

lemma UpdRequestCacheEntry_Bytes_eq:
  "UpdRequestCacheEntry_Bytes CB e =
     (if length (CB (Source e)) < 4 then None
      else Some (le64 (SeqCounter e) @ take (length (CB (Source e)) - 4) (CB (Source e))))"
proof (cases "length (CB (Source e)) < 4")
  case True
  then show ?thesis
    by (simp add: UpdRequestCacheEntry_Bytes_def make_bytes_def write_range_def slice_range_def)
next
  case False
  define ct where "ct = CB (Source e)"
  define k where "k = length ct - 4"
  have len: "length ct + 4 = 8 + k" using False by (simp add: k_def ct_def)
  have mk: "make_bytes (8 + k) = 0 # 0 # 0 # 0 # 0 # 0 # 0 # 0 # replicate k 0"
    by (simp add: make_bytes_def eval_nat_numeral)
  have kle: "k \<le> length ct" by (simp add: k_def)
  show ?thesis
    using False kle
    unfolding UpdRequestCacheEntry_Bytes_def ct_def[symmetric] Let_def len mk k_def[symmetric]
    by (simp add: write_range_def write_from_def slice_range_def slice_from_def copy_go_def
        LittleEndian_PutUint64_def min_def)
qed

lemma ParseCacheEntry_short:
  "length buf < 9 \<Longrightarrow> ParseCacheEntry PC buf = Some (None, [])"
  by (simp add: ParseCacheEntry_def)

lemma ParseCacheEntry_eq:
  assumes "9 \<le> length buf" and "LittleEndian_Uint64 (take 8 buf) = Some s"
  shows "ParseCacheEntry PC buf =
     (case PC (drop 8 buf) of
        (None, rbuf) \<Rightarrow> Some (None, [])
      | (Some ct, rbuf) \<Rightarrow> Some (Some \<lparr>SeqCounter = s, Source = ct\<rparr>, rbuf))"
  using assms
  by (simp add: ParseCacheEntry_def slice_range_0 slice_from_le split: option.splits prod.splits)

section \<open>The envelope codec\<close>

lemma byte_less: "unat (b::byte) < 256"
  using unsigned_less[of b, where 'a=nat] by simp

lemma unat_ucast_byte16: "unat (ucast (b::byte) :: 16 word) = unat b"
  using byte_less[of b] by (simp add: unsigned_ucast_eq take_bit_nat_eq_self)

lemma unat_push8_byte16: "unat (push_bit 8 (ucast (b::byte) :: 16 word)) = 256 * unat b"
proof -
  have "unat (ucast b :: 16 word) * unat (256 :: 16 word) < 2 ^ LENGTH(16)"
    using byte_less[of b] by (simp add: unat_ucast_byte16)
  then have "unat ((ucast b :: 16 word) * 256) = unat (ucast b :: 16 word) * unat (256 :: 16 word)"
    by (rule unat_mult_lem[THEN iffD1])
  then show ?thesis by (simp add: unat_ucast_byte16 push_bit_eq_mult)
qed

lemma uint16_disjoint:
  "(ucast (b0::byte) :: 16 word) OR push_bit 8 (ucast (b1::byte)) = ucast b0 + push_bit 8 (ucast b1)"
  by (rule disjunctive_add [symmetric]) (auto simp: bit_simps dest: bit_imp_le_length)

lemma unat_uint16: 
  "unat ((ucast (b0::byte) :: 16 word) OR push_bit 8 (ucast (b1::byte))) = unat b0 + 256 * unat b1"
proof -
  have "unat b0 + 256 * unat b1 < 2 ^ LENGTH(16)"
    using byte_less[of b0] byte_less[of b1] by simp
  then have "unat (ucast b0 + push_bit 8 (ucast b1) :: 16 word)
      = unat (ucast b0 :: 16 word) + unat (push_bit 8 (ucast b1) :: 16 word)"
    by (subst unat_add_lem[THEN iffD1]) (simp_all only: unat_ucast_byte16 unat_push8_byte16)
  then show ?thesis by (simp only: uint16_disjoint unat_ucast_byte16 unat_push8_byte16)
qed

lemma int_less_uint_iff: "(int n < uint w) = (n < unat w)"
proof -
  have "uint w = int (unat w)" by simp
  then show ?thesis by (simp only: of_nat_less_iff)
qed

lemma UpdPayload_Bytes_eq:
  "UpdPayload_Bytes u =
     (if unat (DataLength u) \<le> length (elems (Data u)) + length (spare (Data u))
      then Some (Operation u # le16 (DataLength u)
                   @ take (unat (DataLength u)) (elems (Data u) @ spare (Data u)))
      else None)"
proof -
  define n where "n = unat (DataLength u)"
  have mk: "make_bytes (3 + n) = 0 # 0 # 0 # replicate n 0"
    by (simp add: make_bytes_def numeral_3_eq_3)
  show ?thesis
    unfolding UpdPayload_Bytes_def n_def[symmetric] mk
    by (simp add: write_range_def write_from_def
      slice_range_def slice_from_def slice_to_def copy_go_def LittleEndian_PutUint16_def
      Let_def min_def)
qed

lemma ParseUpdPayload_short:
  "length buf < 3 \<Longrightarrow> ParseUpdPayload buf = Some (Inl PayloadInvalid)"
  by (simp add: ParseUpdPayload_def)

lemma ParseUpdPayload_cons:
  "ParseUpdPayload (opb # b0 # b1 # rest) =
     (if length rest < unat b0 + 256 * unat b1 then Some (Inl PayloadInvalid)
      else Some (Inr \<lparr>Operation = opb, DataLength = of_nat (unat b0 + 256 * unat b1),
             Data = \<lparr>elems = take (unat b0 + 256 * unat b1) rest,
                      spare = drop (unat b0 + 256 * unat b1) rest\<rparr>\<rparr>))"
proof -
  define dl :: "16 word" where "dl = ucast b0 OR push_bit 8 (ucast b1)"
  have n: "unat dl = unat b0 + 256 * unat b1" by (simp only: dl_def unat_uint16)
  have w: "of_nat (unat b0 + 256 * unat b1) = dl" by (simp only: n[symmetric] of_nat_unat ucast_id)
  have "ParseUpdPayload (opb # b0 # b1 # rest) =
     (if length rest < unat dl then Some (Inl PayloadInvalid)
      else Some (Inr \<lparr>Operation = opb, DataLength = dl,
             Data = \<lparr>elems = take (unat dl) rest, spare = drop (unat dl) rest\<rparr>\<rparr>))"
    by (simp add: ParseUpdPayload_def slice_range_def LittleEndian_Uint16_def Let_def
        dl_def int_less_uint_iff)
  then show ?thesis by (simp only: n w)
qed

lemma unat_le16: "unat v = unat (le16 v ! 0) + 256 * unat (le16 v ! 1)"
proof -
  have "ucast (le16 v ! 0) OR push_bit 8 (ucast (le16 v ! 1)) = v"
    using Uint16_le16[of v] by (simp add: LittleEndian_Uint16_def)
  then show ?thesis using unat_uint16[of "le16 v ! 0" "le16 v ! 1"] by simp
qed

lemma ParseUpdPayload_le16:
  "ParseUpdPayload (opb # le16 v @ rest) =
     (if length rest < unat v then Some (Inl PayloadInvalid)
      else Some (Inr \<lparr>Operation = opb, DataLength = v,
             Data = \<lparr>elems = take (unat v) rest, spare = drop (unat v) rest\<rparr>\<rparr>))"
proof -
  obtain b0 b1 where l: "le16 v = [b0, b1]" by (simp add: le16_def)
  have n: "unat b0 + 256 * unat b1 = unat v" using unat_le16[of v] by (simp add: l)
  have w: "of_nat (unat v) = v" by simp
  show ?thesis
    unfolding l append_Cons append_Nil ParseUpdPayload_cons n w ..
qed

lemma ParseUpdPayload_eq:
  "ParseUpdPayload buf =
     (if length buf < 3 \<or> length buf - 3 < declared_data_length buf
      then Some (Inl PayloadInvalid)
      else Some (Inr \<lparr>Operation = buf ! 0,
                      DataLength = of_nat (declared_data_length buf),
                      Data = \<lparr>elems = take (declared_data_length buf) (drop 3 buf),
                               spare = drop (3 + declared_data_length buf) buf\<rparr>\<rparr>))"
proof (cases "length buf < 3")
  case True
  then show ?thesis by (simp add: ParseUpdPayload_short)
next
  case False
  then obtain opb b0 b1 rest where b: "buf = opb # b0 # b1 # rest"
    by (cases buf; simp; rename_tac a as; case_tac as; simp; rename_tac c cs; case_tac cs; simp)
  show ?thesis
    unfolding b ParseUpdPayload_cons declared_data_length_def by (simp add: numeral_3_eq_3)
qed

section \<open>The cache-response decoder\<close>

lemma ParsePayloadEntry_total: "\<exists>r. ParsePayloadEntry PM buf = Some r"
proof (cases "length buf < 4")
  case True
  then show ?thesis by (simp add: ParsePayloadEntry_short)
next
  case False
  then have l: "4 \<le> length buf" by simp
  then obtain L where "LittleEndian_Uint32 (take 4 buf) = Some L"
    using Uint32_total[of "take 4 buf"] by auto
  then show ?thesis
    by (simp add: ParsePayloadEntry_eq[OF l] split: option.splits)
qed

lemma ParsePayloadEntry_Some_rest:
  assumes "ParsePayloadEntry PM buf = Some (Some e, rbuf)"
  shows "rbuf = drop (4 + unat (Length e)) buf \<and> 4 + unat (Length e) \<le> length buf"
proof (cases "length buf < 4")
  case True
  with assms show ?thesis by (simp add: ParsePayloadEntry_short)
next
  case False
  then have l: "4 \<le> length buf" by simp
  then obtain L where L: "LittleEndian_Uint32 (take 4 buf) = Some L"
    using Uint32_total[of "take 4 buf"] by auto
  from assms show ?thesis
    unfolding ParsePayloadEntry_eq[OF l L]
    by (auto split: if_splits option.splits)
qed

lemma parseable_prefix_fail:
  "ParsePayloadEntry PM buf = Some (None, r) \<Longrightarrow> parseable_prefix PM k buf = []"
  by (cases k) simp_all

lemma response_iteration_fail:
  assumes "idx \<le> length buf" and "ParsePayloadEntry PM (drop idx buf) = Some (None, r)"
  shows "response_iteration PM (buf, idx, es) = Some (buf, idx, es)"
  using assms by (simp add: response_iteration_def slice_from_le)

lemma response_iteration_ok:
  assumes "idx \<le> length buf" and "ParsePayloadEntry PM (drop idx buf) = Some (Some e, rbuf)"
  shows "response_iteration PM (buf, idx, es) = Some (rbuf, 0, es @ [e])"
  using assms by (simp add: response_iteration_def slice_from_le)

lemma response_loop_fail:
  assumes "idx \<le> length buf" and "ParsePayloadEntry PM (drop idx buf) = Some (None, r)"
  shows "response_loop PM k (buf, idx, es) = Some (buf, idx, es)"
  by (induction k) (simp_all add: response_iteration_fail[OF assms])

lemma response_loop_entries:
  "idx \<le> length buf \<Longrightarrow>
   \<exists>b i. response_loop PM k (buf, idx, es)
           = Some (b, i, es @ parseable_prefix PM k (drop idx buf))"
proof (induction k arbitrary: buf idx es)
  case 0
  then show ?case by simp
next
  case (Suc k)
  obtain m rbuf where p: "ParsePayloadEntry PM (drop idx buf) = Some (m, rbuf)"
    using ParsePayloadEntry_total[of PM "drop idx buf"] by auto
  show ?case
  proof (cases m)
    case None
    with p have f: "ParsePayloadEntry PM (drop idx buf) = Some (None, rbuf)" by simp
    show ?thesis
      using response_loop_fail[OF Suc.prems f, of "Suc k" es]
      by (simp only: parseable_prefix_fail[OF f] append_Nil2) blast
  next
    case (Some e)
    with p have s: "ParsePayloadEntry PM (drop idx buf) = Some (Some e, rbuf)" by simp
    obtain b i where "response_loop PM k (rbuf, 0, es @ [e])
           = Some (b, i, (es @ [e]) @ parseable_prefix PM k (drop 0 rbuf))"
      using Suc.IH[of 0 rbuf "es @ [e]"] by auto
    then show ?thesis
      by (simp add: response_iteration_ok[OF Suc.prems s] s)
  qed
qed

lemma ParsePayloadCacheResponse_short:
  "length buf < 4 \<Longrightarrow> ParsePayloadCacheResponse PM buf = Some None"
  by (simp add: ParsePayloadCacheResponse_def)

lemma ParsePayloadCacheResponse_eq:
  assumes "4 \<le> length buf" and "LittleEndian_Uint32 (take 4 buf) = Some n"
  shows "ParsePayloadCacheResponse PM buf
     = Some (Some \<lparr>NumEntries = n, Entries = parseable_prefix PM (unat n) (drop 4 buf)\<rparr>)"
proof -
  obtain b i where "response_loop PM (unat n) (buf, 4, [])
           = Some (b, i, [] @ parseable_prefix PM (unat n) (drop 4 buf))"
    using response_loop_entries[OF assms(1), of PM "unat n" "[]"] by auto
  then show ?thesis
    using assms by (simp add: ParsePayloadCacheResponse_def slice_range_0)
qed

lemma length_parseable_prefix: "length (parseable_prefix PM k buf) \<le> k"
  by (induction k arbitrary: buf) (auto split: option.splits)

section \<open>The cache-request decoder\<close>

lemma ParseCacheEntry_total: "\<exists>r. ParseCacheEntry PC buf = Some r"
proof (cases "length buf < 9")
  case True
  then show ?thesis by (simp add: ParseCacheEntry_short)
next
  case False
  then have l: "9 \<le> length buf" by simp
  then obtain s where "LittleEndian_Uint64 (take 8 buf) = Some s"
    using Uint64_total[of "take 8 buf"] by auto
  then show ?thesis
    by (simp add: ParseCacheEntry_eq[OF l] split: option.splits prod.splits)
qed

lemma ParseCacheEntry_wire:
  assumes rt: "\<And>c rest. PC (CB c @ rest) = (Some c, rest)" and ne: "CB (Source e) \<noteq> []"
  shows "ParseCacheEntry PC (request_entry_wire CB e @ rest) = Some (Some e, rest)"
proof -
  let ?buf = "request_entry_wire CB e @ rest"
  have "length (CB (Source e)) \<ge> 1" using ne by (cases "CB (Source e)") simp_all
  then have l: "9 \<le> length ?buf" by (simp add: request_entry_wire_def)
  have t: "take 8 ?buf = le64 (SeqCounter e)" by (simp add: request_entry_wire_def)
  have d: "drop 8 ?buf = CB (Source e) @ rest" by (simp add: request_entry_wire_def)
  have u: "LittleEndian_Uint64 (take 8 ?buf) = Some (SeqCounter e)"
    by (simp only: t Uint64_le64)
  show ?thesis
    unfolding ParseCacheEntry_eq[OF l u] d rt by simp
qed

lemma request_iteration_fail:
  assumes "ParseCacheEntry PC buf = Some (None, r)"
  shows "request_iteration PC (buf, es) = Some (False, buf, es)"
  using assms by (simp add: request_iteration_def)

lemma request_iteration_ok:
  assumes "ParseCacheEntry PC buf = Some (Some e, rbuf)"
  shows "request_iteration PC (buf, es) = Some (length rbuf = 0, rbuf, es @ [e])"
  using assms by (simp add: request_iteration_def)

lemma request_loop_fail:
  assumes "ParseCacheEntry PC buf = Some (None, r)"
  shows "request_loop PC k (buf, es) = Some (buf, es)"
  by (induction k) (simp_all add: request_iteration_fail[OF assms])

lemma request_loop_total:
  "\<exists>b es'. request_loop PC k (buf, es) = Some (b, es') \<and> length es' \<le> length es + k"
proof (induction k arbitrary: buf es)
  case 0
  then show ?case by simp
next
  case (Suc k)
  obtain m rbuf where p: "ParseCacheEntry PC buf = Some (m, rbuf)"
    using ParseCacheEntry_total[of PC buf] by auto
  show ?case
  proof (cases m)
    case None
    with p have f: "ParseCacheEntry PC buf = Some (None, rbuf)" by simp
    show ?thesis using request_loop_fail[OF f, of "Suc k" es] by simp
  next
    case (Some e)
    with p have s: "ParseCacheEntry PC buf = Some (Some e, rbuf)" by simp
    obtain b es' where "request_loop PC k (rbuf, es @ [e]) = Some (b, es')"
      and "length es' \<le> length (es @ [e]) + k"
      using Suc.IH[of rbuf "es @ [e]"] by auto
    then show ?thesis
      by (auto simp add: request_iteration_ok[OF s])
  qed
qed

lemma request_entry_wire_nonempty: "request_entry_wire CB e @ rest \<noteq> []"
proof -
  have "length (request_entry_wire CB e @ rest) \<ge> 8" by (simp add: request_entry_wire_def)
  then show ?thesis by auto
qed

lemma request_loop_entries:
  assumes rt: "\<And>c rest. PC (CB c @ rest) = (Some c, rest)" and ne: "\<And>c. CB c \<noteq> []"
    and tl: "ParseCacheEntry PC tail = Some (None, r)"
  shows "length es \<le> k \<Longrightarrow>
     \<exists>b. request_loop PC k (concat (map (request_entry_wire CB) es) @ tail, acc)
           = Some (b, acc @ es)"
proof (induction es arbitrary: k acc)
  case Nil
  then show ?case by (simp add: request_loop_fail[OF tl])
next
  case (Cons e es)
  then obtain k' where k: "k = Suc k'" and le: "length es \<le> k'" by (cases k) auto
  define rest where "rest = concat (map (request_entry_wire CB) es) @ tail"
  have buf: "concat (map (request_entry_wire CB) (e # es)) @ tail = request_entry_wire CB e @ rest"
    by (simp add: rest_def)
  have p: "ParseCacheEntry PC (request_entry_wire CB e @ rest) = Some (Some e, rest)"
    by (rule ParseCacheEntry_wire[OF rt ne])
  have it: "request_iteration PC (request_entry_wire CB e @ rest, acc)
      = Some (length rest = 0, rest, acc @ [e])"
    by (rule request_iteration_ok[OF p])
  show ?case
  proof (cases "rest = []")
    case True
    have "es = []"
    proof (cases es)
      case Nil then show ?thesis .
    next
      case (Cons x xs)
      then have "rest = request_entry_wire CB x @ (concat (map (request_entry_wire CB) xs) @ tail)"
        by (simp add: rest_def)
      with True request_entry_wire_nonempty[of CB x] show ?thesis by simp
    qed
    with True it show ?thesis unfolding buf k by simp
  next
    case False
    obtain b where "request_loop PC k' (rest, acc @ [e]) = Some (b, (acc @ [e]) @ es)"
      using Cons.IH[OF le, of "acc @ [e]"] unfolding rest_def by auto
    with False it show ?thesis unfolding buf k by simp
  qed
qed

lemma ParsePayloadCacheRequest_short:
  "length buf < 4 \<Longrightarrow> ParsePayloadCacheRequest PC buf = Some None"
  by (simp add: ParsePayloadCacheRequest_def)

lemma ParsePayloadCacheRequest_loop:
  assumes "4 \<le> length buf" and "LittleEndian_Uint32 (take 4 buf) = Some n"
    and "request_loop PC (unat n) (drop 4 buf, []) = Some (b, es)"
  shows "ParsePayloadCacheRequest PC buf
     = Some (Some \<lparr>UpdPayloadCacheRequest.NumEntries = n, UpdPayloadCacheRequest.Entries = es\<rparr>)"
  using assms by (simp add: ParsePayloadCacheRequest_def slice_range_0 slice_from_le)

section \<open>The list encoders\<close>

lemma encode_entries_eq:
  "encode_entries enc cs ent tlen =
     (if \<forall>c\<in>set cs. enc c \<noteq> None
      then Some (ent @ map (\<lambda>c. the (enc c)) cs,
                 tlen + length (concat (map (\<lambda>c. the (enc c)) cs)))
      else None)"
proof (induction cs arbitrary: ent tlen)
  case Nil
  then show ?case by simp
next
  case (Cons c cs)
  show ?case
  proof (cases "enc c")
    case None
    then show ?thesis by simp
  next
    case (Some e)
    then show ?thesis by (simp add: Cons.IH)
  qed
qed

lemma write_from_copy:
  assumes "idx + length e \<le> length buf"
  shows "write_from buf idx (\<lambda>b. copy_go b e)
           = Some (take idx buf @ e @ drop (idx + length e) buf)"
proof -
  have "min (length buf - idx) (length e) = length e" using assms by simp
  then show ?thesis
    using assms by (simp add: write_from_def slice_from_def copy_go_def add.commute)
qed

lemma copy_entries_eq:
  "idx + length (concat es) \<le> length buf \<Longrightarrow>
   copy_entries buf idx es
     = Some (take idx buf @ concat es @ drop (idx + length (concat es)) buf)"
proof (induction es arbitrary: buf idx)
  case Nil
  then show ?case by simp
next
  case (Cons e es)
  define buf' where "buf' = take idx buf @ e @ drop (idx + length e) buf"
  have le: "idx + length e \<le> length buf" using Cons.prems by simp
  have w: "write_from buf idx (\<lambda>b. copy_go b e) = Some buf'"
    unfolding buf'_def by (rule write_from_copy[OF le])
  have len: "length buf' = length buf" using le by (simp add: buf'_def)
  have pre: "(idx + length e) + length (concat es) \<le> length buf'"
    using Cons.prems by (simp add: len)
  have t: "take (idx + length e) buf' = take idx buf @ e"
    using le by (simp add: buf'_def)
  have d: "drop (idx + length e + length (concat es)) buf'
      = drop (idx + length e + length (concat es)) buf"
    using le by (simp add: buf'_def ac_simps)
  show ?case
    using Cons.IH[OF pre] by (simp add: w t d[unfolded add.assoc] add.assoc)
qed

lemma write_count_from:
  "write_from (make_bytes (t + 4)) 0 (\<lambda>b. LittleEndian_PutUint32 b n)
     = Some (le32 n @ replicate t 0)"
proof -
  have mk: "make_bytes (t + 4) = 0 # 0 # 0 # 0 # replicate t 0"
    by (simp add: make_bytes_def eval_nat_numeral)
  show ?thesis
    unfolding mk by (simp add: write_from_def slice_from_def LittleEndian_PutUint32_def)
qed

lemma write_count_range:
  "write_range (make_bytes (t + 4)) 0 (0 + 4) (\<lambda>b. LittleEndian_PutUint32 b n)
     = Some (le32 n @ replicate t 0)"
proof -
  have mk: "make_bytes (t + 4) = 0 # 0 # 0 # 0 # replicate t 0"
    by (simp add: make_bytes_def eval_nat_numeral)
  show ?thesis
    unfolding mk by (simp add: write_range_def slice_range_def LittleEndian_PutUint32_def)
qed

lemma copy_entries_after_count:
  "copy_entries (le32 n @ replicate (length (concat ent)) 0) 4 ent = Some (le32 n @ concat ent)"
  using copy_entries_eq[of 4 ent "le32 n @ replicate (length (concat ent)) 0"] by simp

lemma UpdPayloadCacheResponse_Bytes_eq:
  "UpdPayloadCacheResponse_Bytes MB r
     = Some (le32 (UpdPayloadCacheResponse.NumEntries r)
             @ concat (map (\<lambda>e. le32 (of_nat (length (MB (Message e)))) @ MB (Message e))
                           (UpdPayloadCacheResponse.Entries r)))"
  by (simp add: UpdPayloadCacheResponse_Bytes_def encode_entries_eq UpdPayloadEntry_Bytes_eq
      write_count_range[simplified] copy_entries_after_count)

lemma UpdPayloadCacheRequest_Bytes_eq:
  "UpdPayloadCacheRequest_Bytes CB q
     = (if \<forall>e \<in> set (UpdPayloadCacheRequest.Entries q). 4 \<le> length (CB (Source e))
        then Some (le32 (UpdPayloadCacheRequest.NumEntries q)
             @ concat (map (\<lambda>e. le64 (SeqCounter e)
                                  @ take (length (CB (Source e)) - 4) (CB (Source e)))
                           (UpdPayloadCacheRequest.Entries q)))
        else None)"
proof -
  have ok: "(\<forall>c\<in>set (UpdPayloadCacheRequest.Entries q). UpdRequestCacheEntry_Bytes CB c \<noteq> None)
      = (\<forall>e \<in> set (UpdPayloadCacheRequest.Entries q). 4 \<le> length (CB (Source e)))"
    by (auto simp: UpdRequestCacheEntry_Bytes_eq not_less)
  have m: "\<forall>e \<in> set (UpdPayloadCacheRequest.Entries q). 4 \<le> length (CB (Source e)) \<Longrightarrow>
     map (\<lambda>c. the (UpdRequestCacheEntry_Bytes CB c)) (UpdPayloadCacheRequest.Entries q)
     = map (\<lambda>e. le64 (SeqCounter e) @ take (length (CB (Source e)) - 4) (CB (Source e)))
           (UpdPayloadCacheRequest.Entries q)"
    by (rule map_cong) (auto simp: UpdRequestCacheEntry_Bytes_eq)
  show ?thesis
  proof (cases "\<forall>e \<in> set (UpdPayloadCacheRequest.Entries q). 4 \<le> length (CB (Source e))")
    case True
    show ?thesis
      unfolding UpdPayloadCacheRequest_Bytes_def encode_entries_eq ok
      using True by (simp add: m[OF True] write_count_from copy_entries_after_count)
  next
    case False
    show ?thesis
      unfolding UpdPayloadCacheRequest_Bytes_def encode_entries_eq ok
      by (simp only: False if_False) simp
  qed
qed

section \<open>Totality of the list decoders; the codec instances\<close>

lemma ParsePayloadCacheResponse_total: "\<exists>r. ParsePayloadCacheResponse PM buf = Some r"
proof (cases "length buf < 4")
  case True
  then show ?thesis by (simp add: ParsePayloadCacheResponse_short)
next
  case False
  then have l: "4 \<le> length buf" by simp
  then obtain n where n: "LittleEndian_Uint32 (take 4 buf) = Some n"
    using Uint32_total[of "take 4 buf"] by auto
  show ?thesis by (simp add: ParsePayloadCacheResponse_eq[OF l n])
qed

lemma ParsePayloadCacheRequest_total: "\<exists>r. ParsePayloadCacheRequest PC buf = Some r"
proof (cases "length buf < 4")
  case True
  then show ?thesis by (simp add: ParsePayloadCacheRequest_short)
next
  case False
  then have l: "4 \<le> length buf" by simp
  then obtain n where n: "LittleEndian_Uint32 (take 4 buf) = Some n"
    using Uint32_total[of "take 4 buf"] by auto
  obtain b es where lp: "request_loop PC (unat n) (drop 4 buf, []) = Some (b, es)"
    using request_loop_total[of PC "unat n" "drop 4 buf" "[]"] by auto
  show ?thesis by (simp add: ParsePayloadCacheRequest_loop[OF l n lp])
qed

lemma demo_message_roundtrip: "demo_ParseMessage (demo_MessageBytes m @ rest) = Some m"
  by (cases m) simp

lemma demo_contact_roundtrip: "demo_ParseContact (demo_ContactBytes c @ rest) = (Some c, rest)"
  by (cases c) simp

lemma demo_ContactBytes_nonempty: "demo_ContactBytes c \<noteq> []"
  by (cases c) simp

section \<open>Progress of an iteration; entries on the wire\<close>

lemma response_iteration_progress:
  assumes "idx \<le> length b" and "response_iteration PM (b, idx, es) = Some (b', idx', es')"
    and "es' \<noteq> es"
  shows "idx' = 0 \<and> length b' + 4 \<le> length b - idx"
proof -
  obtain m rbuf where p: "ParsePayloadEntry PM (drop idx b) = Some (m, rbuf)"
    using ParsePayloadEntry_total[of PM "drop idx b"] by auto
  show ?thesis
  proof (cases m)
    case None
    with p have "ParsePayloadEntry PM (drop idx b) = Some (None, rbuf)" by simp
    from response_iteration_fail[OF assms(1) this, of es] assms(2,3) show ?thesis by simp
  next
    case (Some e)
    with p have s: "ParsePayloadEntry PM (drop idx b) = Some (Some e, rbuf)" by simp
    from response_iteration_ok[OF assms(1) s, of es] assms(2)
    have "b' = rbuf" "idx' = 0" by simp_all
    from ParsePayloadEntry_Some_rest[OF s]
    have "length rbuf = length b - idx - (4 + unat (Length e))"
      and "4 + unat (Length e) \<le> length b - idx"
      by simp_all
    then have "length rbuf + 4 \<le> length b - idx" by arith
    with \<open>b' = rbuf\<close> \<open>idx' = 0\<close> show ?thesis by simp
  qed
qed

lemma request_iteration_skip:
  assumes "request_iteration PC (b, qs) = Some (brk, b', qs')" and "qs' = qs"
  shows "b' = b \<and> \<not> brk"
proof -
  obtain m rbuf where p: "ParseCacheEntry PC b = Some (m, rbuf)"
    using ParseCacheEntry_total[of PC b] by auto
  show ?thesis
  proof (cases m)
    case None
    with p have "ParseCacheEntry PC b = Some (None, rbuf)" by simp
    from request_iteration_fail[OF this, of qs] assms(1) show ?thesis by simp
  next
    case (Some e)
    with p have "ParseCacheEntry PC b = Some (Some e, rbuf)" by simp
    from request_iteration_ok[OF this, of qs] assms show ?thesis by simp
  qed
qed

lemma le32_5: "le32 5 = [5, 0, 0, 0]"
  by (simp add: le32_def)

lemma le64_7: "le64 7 = [7, 0, 0, 0, 0, 0, 0, 0]"
  by (simp add: le64_def)

lemma le64_8: "le64 8 = [8, 0, 0, 0, 0, 0, 0, 0]"
  by (simp add: le64_def)

lemma ParsePayloadEntry_wire:
  assumes rt: "\<And>m rest. PM (MB m @ rest) = Some m"
    and L: "unat (Length e) = length (MB (Message e))"
  shows "ParsePayloadEntry PM
           ((le32 (of_nat (length (MB (Message e)))) @ MB (Message e)) @ rest)
         = Some (Some e, rest)"
proof -
  have w: "of_nat (length (MB (Message e))) = Length e"
    by (simp only: L[symmetric] of_nat_unat ucast_id)
  let ?buf = "(le32 (Length e) @ MB (Message e)) @ rest"
  have l: "4 \<le> length ?buf" by simp
  have c: "LittleEndian_Uint32 (take 4 ?buf) = Some (Length e)" by (simp add: Uint32_le32)
  have d: "drop 4 ?buf = MB (Message e) @ rest" by simp
  have dd: "drop (4 + unat (Length e)) ?buf = rest" by (simp add: L)
  have n: "\<not> length ?buf < 4 + unat (Length e)" by (simp add: L)
  show ?thesis
    unfolding w ParsePayloadEntry_eq[OF l c] d dd rt using n by simp
qed

lemma parseable_prefix_wire:
  assumes rt: "\<And>m rest. PM (MB m @ rest) = Some m"
  shows "\<forall>e \<in> set es. unat (Length e) = length (MB (Message e)) \<Longrightarrow>
    parseable_prefix PM (length es)
      (concat (map (\<lambda>e. le32 (of_nat (length (MB (Message e)))) @ MB (Message e)) es))
    = es"
proof (induction es)
  case Nil
  then show ?case by simp
next
  case (Cons e es)
  have L: "unat (Length e) = length (MB (Message e))" using Cons.prems by simp
  have p: "ParsePayloadEntry PM
         ((le32 (of_nat (length (MB (Message e)))) @ MB (Message e))
           @ concat (map (\<lambda>e. le32 (of_nat (length (MB (Message e)))) @ MB (Message e)) es))
       = Some (Some e,
           concat (map (\<lambda>e. le32 (of_nat (length (MB (Message e)))) @ MB (Message e)) es))"
    by (rule ParsePayloadEntry_wire[OF rt L])
  have ih: "parseable_prefix PM (length es)
      (concat (map (\<lambda>e. le32 (of_nat (length (MB (Message e)))) @ MB (Message e)) es)) = es"
    using Cons.IH Cons.prems by simp
  show ?case
    using p by (simp add: ih)
qed

lemma UpdPayload_roundtrip:
  assumes "unat (DataLength u) = length (elems (Data u))"
  shows "\<exists>out. UpdPayload_Bytes u = Some out
     \<and> ParseUpdPayload out
         = Some (Inr \<lparr>Operation = Operation u, DataLength = DataLength u,
                      Data = \<lparr>elems = elems (Data u), spare = []\<rparr>\<rparr>)"
  using assms by (simp add: UpdPayload_Bytes_eq ParseUpdPayload_le16)

lemma UpdPayloadCacheResponse_roundtrip:
  assumes rt: "\<And>m rest. PM (MB m @ rest) = Some m"
    and n: "unat (UpdPayloadCacheResponse.NumEntries r) = length (UpdPayloadCacheResponse.Entries r)"
    and L: "\<forall>e \<in> set (UpdPayloadCacheResponse.Entries r). unat (Length e) = length (MB (Message e))"
  shows "\<exists>out. UpdPayloadCacheResponse_Bytes MB r = Some out
     \<and> ParsePayloadCacheResponse PM out = Some (Some r)"
proof -
  let ?body = "concat (map (\<lambda>e. le32 (of_nat (length (MB (Message e)))) @ MB (Message e))
                           (UpdPayloadCacheResponse.Entries r))"
  let ?out = "le32 (UpdPayloadCacheResponse.NumEntries r) @ ?body"
  have l: "4 \<le> length ?out" by simp
  have c: "LittleEndian_Uint32 (take 4 ?out) = Some (UpdPayloadCacheResponse.NumEntries r)"
    by (simp add: Uint32_le32)
  have pp: "parseable_prefix PM (unat (UpdPayloadCacheResponse.NumEntries r)) (drop 4 ?out)
      = UpdPayloadCacheResponse.Entries r"
    using parseable_prefix_wire[of PM MB, OF rt L] by (simp add: n)
  have "ParsePayloadCacheResponse PM ?out = Some (Some r)"
    unfolding ParsePayloadCacheResponse_eq[OF l c] pp by simp
  then show ?thesis by (simp add: UpdPayloadCacheResponse_Bytes_eq)
qed

section \<open>Properties of the envelope decoder and encoder\<close>

lemma declared_data_length_example: "declared_data_length [1, 2, 0, 7, 8, 9] = 2"
  by (simp add: declared_data_length_def)

lemma le16_2: "le16 2 = [2, 0]"
  by (simp add: le16_def)

text \<open>
  C6. \<open>ParseUpdPayload\<close> returns an error exactly when the buffer is shorter than
  3 bytes or the declared 2-byte little-endian data length exceeds the bytes that remain
  after the 3-byte header. Otherwise it returns the operation byte, the declared length
  and exactly that many data bytes. A 3-byte buffer declaring length 0 decodes to empty
  data, and a 2-byte buffer fails.
\<close>

theorem ParseUpdPayload_error_iff:
  "ParseUpdPayload buf =
     (if length buf < 3 \<or> length buf - 3 < declared_data_length buf
      then Some (Inl PayloadInvalid)
      else Some (Inr \<lparr>Operation = buf ! 0,
                      DataLength = of_nat (declared_data_length buf),
                      Data = \<lparr>elems = take (declared_data_length buf) (drop 3 buf),
                               spare = drop (3 + declared_data_length buf) buf\<rparr>\<rparr>))
   \<and> (\<forall>u. ParseUpdPayload buf = Some (Inr u) \<longrightarrow>
          unat (DataLength u) = declared_data_length buf
        \<and> length (elems (Data u)) = declared_data_length buf)
   \<and> ParseUpdPayload [opb, 0, 0]
         = Some (Inr \<lparr>Operation = opb, DataLength = 0, Data = \<lparr>elems = [], spare = []\<rparr>\<rparr>)
   \<and> ParseUpdPayload [b0, b1] = Some (Inl PayloadInvalid)"
proof (intro conjI allI impI)
  show "ParseUpdPayload buf =
     (if length buf < 3 \<or> length buf - 3 < declared_data_length buf
      then Some (Inl PayloadInvalid)
      else Some (Inr \<lparr>Operation = buf ! 0,
                      DataLength = of_nat (declared_data_length buf),
                      Data = \<lparr>elems = take (declared_data_length buf) (drop 3 buf),
                               spare = drop (3 + declared_data_length buf) buf\<rparr>\<rparr>))"
    by (rule ParseUpdPayload_eq)
next
  fix u assume ok: "ParseUpdPayload buf = Some (Inr u)"
  have bound: "declared_data_length buf < 2 ^ LENGTH(16)"
    using byte_less[of "buf ! 1"] byte_less[of "buf ! 2"]
    by (simp add: declared_data_length_def)
  from ok have c: "\<not> (length buf < 3 \<or> length buf - 3 < declared_data_length buf)"
    and u: "u = \<lparr>Operation = buf ! 0,
                      DataLength = of_nat (declared_data_length buf),
                      Data = \<lparr>elems = take (declared_data_length buf) (drop 3 buf),
                               spare = drop (3 + declared_data_length buf) buf\<rparr>\<rparr>"
    by (auto simp: ParseUpdPayload_eq split: if_splits)
  show "unat (DataLength u) = declared_data_length buf"
    using bound by (simp add: u unat_of_nat)
  show "length (elems (Data u)) = declared_data_length buf"
    using c by (simp add: u)
next
  show "ParseUpdPayload [opb, 0, 0]
         = Some (Inr \<lparr>Operation = opb, DataLength = 0, Data = \<lparr>elems = [], spare = []\<rparr>\<rparr>)"
    by (simp add: ParseUpdPayload_cons)
next
  show "ParseUpdPayload [b0, b1] = Some (Inl PayloadInvalid)"
    by (simp add: ParseUpdPayload_short)
qed

theorem ParseUpdPayload_error_iff_witness:
  "ParseUpdPayload [1, 2, 0, 7, 8, 9]
     = Some (Inr \<lparr>Operation = 1, DataLength = 2, Data = \<lparr>elems = [7, 8], spare = [9]\<rparr>\<rparr>)
   \<and> unat (2 :: 16 word) = declared_data_length [1, 2, 0, 7, 8, 9]"
proof -
  have p: "ParseUpdPayload [1, 2, 0, 7, 8, 9]
     = Some (Inr \<lparr>Operation = 1, DataLength = 2, Data = \<lparr>elems = [7, 8], spare = [9]\<rparr>\<rparr>)"
    using ParseUpdPayload_error_iff[of "[1, 2, 0, 7, 8, 9]" 0 0 0, THEN conjunct1]
    by (simp add: declared_data_length_example)
  have "unat (DataLength \<lparr>Operation = 1, DataLength = 2, Data = \<lparr>elems = [7, 8], spare = [9]\<rparr>\<rparr>)
      = declared_data_length [1, 2, 0, 7, 8, 9]"
    using ParseUpdPayload_error_iff[of "[1, 2, 0, 7, 8, 9]" 0 0 0, THEN conjunct2, THEN conjunct1,
        THEN spec, THEN mp, OF p, THEN conjunct1] .
  with p show ?thesis by simp
qed

text \<open>
  C10. \<open>UpdPayload.Bytes\<close> serializes exactly the first \<open>DataLength\<close> bytes of
  \<open>Data\<close>: when \<open>Data\<close> is longer than \<open>DataLength\<close> the excess bytes are dropped
  from the encoding, and \<open>ParseUpdPayload\<close> of the result yields \<open>Data\<close> truncated to
  \<open>DataLength\<close>, which is not the original \<open>Data\<close>.
\<close>

theorem UpdPayload_Bytes_truncates_Data:
  assumes "unat (DataLength u) < length (elems (Data u))"
  shows "UpdPayload_Bytes u
           = Some (Operation u # le16 (DataLength u) @ take (unat (DataLength u)) (elems (Data u)))
       \<and> ParseUpdPayload (Operation u # le16 (DataLength u)
                            @ take (unat (DataLength u)) (elems (Data u)))
           = Some (Inr \<lparr>Operation = Operation u, DataLength = DataLength u,
                        Data = \<lparr>elems = take (unat (DataLength u)) (elems (Data u)), spare = []\<rparr>\<rparr>)
       \<and> take (unat (DataLength u)) (elems (Data u)) \<noteq> elems (Data u)"
proof (intro conjI)
  show "UpdPayload_Bytes u
           = Some (Operation u # le16 (DataLength u) @ take (unat (DataLength u)) (elems (Data u)))"
    using assms by (simp add: UpdPayload_Bytes_eq)
  show "ParseUpdPayload (Operation u # le16 (DataLength u)
                            @ take (unat (DataLength u)) (elems (Data u)))
           = Some (Inr \<lparr>Operation = Operation u, DataLength = DataLength u,
                        Data = \<lparr>elems = take (unat (DataLength u)) (elems (Data u)), spare = []\<rparr>\<rparr>)"
    using assms by (simp add: ParseUpdPayload_le16)
  show "take (unat (DataLength u)) (elems (Data u)) \<noteq> elems (Data u)"
    using assms by (auto dest: arg_cong[where f=length])
qed

theorem UpdPayload_Bytes_truncates_Data_witness:
  "UpdPayload_Bytes \<lparr>Operation = 1, DataLength = 2, Data = \<lparr>elems = [7, 8, 9], spare = []\<rparr>\<rparr>
     = Some [1, 2, 0, 7, 8]
   \<and> ParseUpdPayload [1, 2, 0, 7, 8]
     = Some (Inr \<lparr>Operation = 1, DataLength = 2, Data = \<lparr>elems = [7, 8], spare = []\<rparr>\<rparr>)"
proof -
  have h: "unat (DataLength \<lparr>Operation = 1, DataLength = 2, Data = \<lparr>elems = [7, 8, 9], spare = []\<rparr>\<rparr>)
      < length (elems (Data \<lparr>Operation = 1, DataLength = 2, Data = \<lparr>elems = [7, 8, 9], spare = []\<rparr>\<rparr>))"
    by simp
  show ?thesis
    using UpdPayload_Bytes_truncates_Data[OF h] by (simp add: le16_2)
qed

section \<open>Properties of the cache-response decoder\<close>

text \<open>
  C1. A cache response with three length-prefixed entries whose second entry carries
  garbage of the declared length should decode to the first and the third message. It
  does not: \<open>ParsePayloadCacheResponse\<close> discards the remainder that
  \<open>ParsePayloadEntry\<close> returns for the corrupted entry, so the second and the third
  iteration both read the corrupted entry and only the first message is returned.
\<close>

theorem ParsePayloadCacheResponse_corrupted_second_entry:
  "ParsePayloadCacheResponse demo_ParseMessage
     [3, 0, 0, 0,  2, 0, 0, 0, 0x4D, 1,  2, 0, 0, 0, 0xFF, 0xFF,  2, 0, 0, 0, 0x4D, 3]
   = Some (Some \<lparr>NumEntries = 3, Entries = [\<lparr>Length = 2, Message = DemoMessage 1\<rparr>]\<rparr>)"
  by code_simp

text \<open>
  C9. In \<open>ParsePayloadCacheResponse\<close>, an iteration in which \<open>ParsePayloadEntry\<close>
  returns no entry leaves the buffer and the index as they were, and so does every
  further iteration. For every buffer of at least four bytes the returned \<open>Entries\<close> are
  the claimed entries that parse one after the other up to the first failure; no entry
  after a failure is recovered.
\<close>

theorem ParsePayloadCacheResponse_stops_at_first_failure:
  "(idx \<le> length buf \<and> ParsePayloadEntry PM (drop idx buf) = Some (None, r) \<longrightarrow>
      response_iteration PM (buf, idx, es) = Some (buf, idx, es)
    \<and> response_loop PM k (buf, idx, es) = Some (buf, idx, es))
   \<and> (4 \<le> length buf \<and> LittleEndian_Uint32 (take 4 buf) = Some n \<longrightarrow>
      ParsePayloadCacheResponse PM buf
        = Some (Some \<lparr>NumEntries = n,
                       Entries = parseable_prefix PM (unat n) (drop 4 buf)\<rparr>))"
  using response_iteration_fail[of idx buf PM r es] response_loop_fail[of idx buf PM r k es]
    ParsePayloadCacheResponse_eq[of buf n PM]
  by blast

lemma garbage_entry_example:
  "ParsePayloadEntry demo_ParseMessage [2, 0, 0, 0, 0xFF, 0xFF, 2, 0, 0, 0, 0x4D, 3]
     = Some (None, [2, 0, 0, 0, 0x4D, 3])"
  by code_simp

lemma count_example: "LittleEndian_Uint32 [2, 0, 0, 0] = Some 2"
  by code_simp

theorem ParsePayloadCacheResponse_stops_at_first_failure_witness:
  "ParsePayloadCacheResponse demo_ParseMessage
       [2, 0, 0, 0,  2, 0, 0, 0, 0xFF, 0xFF,  2, 0, 0, 0, 0x4D, 3]
     = Some (Some \<lparr>NumEntries = 2, Entries = []\<rparr>)
   \<and> response_iteration demo_ParseMessage
       ([2, 0, 0, 0,  2, 0, 0, 0, 0xFF, 0xFF,  2, 0, 0, 0, 0x4D, 3], 4, [])
     = Some ([2, 0, 0, 0,  2, 0, 0, 0, 0xFF, 0xFF,  2, 0, 0, 0, 0x4D, 3], 4, [])"
proof -
  let ?buf = "[2, 0, 0, 0,  2, 0, 0, 0, 0xFF, 0xFF,  2, 0, 0, 0, 0x4D, 3] :: byte list"
  have d: "drop 4 ?buf = [2, 0, 0, 0, 0xFF, 0xFF, 2, 0, 0, 0, 0x4D, 3]" by simp
  have t: "take 4 ?buf = [2, 0, 0, 0]" by simp
  have f: "ParsePayloadEntry demo_ParseMessage (drop 4 ?buf) = Some (None, [2, 0, 0, 0, 0x4D, 3])"
    by (simp only: d garbage_entry_example)
  have c: "LittleEndian_Uint32 (take 4 ?buf) = Some 2" by (simp only: t count_example)
  have l: "4 \<le> length ?buf" by simp
  note T = ParsePayloadCacheResponse_stops_at_first_failure
      [of 4 ?buf demo_ParseMessage "[2, 0, 0, 0, 0x4D, 3]" "[]" 0 2]
  have a: "response_iteration demo_ParseMessage (?buf, 4, []) = Some (?buf, 4, [])"
    using T[THEN conjunct1] l f by blast
  have b: "ParsePayloadCacheResponse demo_ParseMessage ?buf
        = Some (Some \<lparr>NumEntries = 2,
             Entries = parseable_prefix demo_ParseMessage (unat (2 :: 32 word)) (drop 4 ?buf)\<rparr>)"
    using T[THEN conjunct2] l c by blast
  have "parseable_prefix demo_ParseMessage (unat (2 :: 32 word)) (drop 4 ?buf) = []"
    by (rule parseable_prefix_fail[OF f])
  with a b show ?thesis by simp
qed

section \<open>Properties of both list decoders\<close>

text \<open>
  C2 as stated (neither list decoder ever returns an absent result) fails: on a buffer
  shorter than the 4-byte count both return nil.
\<close>

theorem ParsePayloadCache_nil_on_short_buffer:
  "ParsePayloadCacheResponse demo_ParseMessage [3, 0, 0] = Some None
   \<and> ParsePayloadCacheRequest demo_ParseContact [] = Some None"
  by (simp add: ParsePayloadCacheResponse_short ParsePayloadCacheRequest_short)

text \<open>
  C2, amended. \<open>ParsePayloadCacheRequest\<close> and \<open>ParsePayloadCacheResponse\<close> never
  panic and never return an error. Each returns nil exactly when the buffer is shorter
  than the 4-byte count; on every longer buffer each returns a value whose
  \<open>NumEntries\<close> is the declared count and whose \<open>Entries\<close> list, possibly empty or
  partial, has at most that many entries.
\<close>

theorem ParsePayloadCache_nil_iff_short:
  "(ParsePayloadCacheResponse PM buf = Some None \<longleftrightarrow> length buf < 4)
   \<and> (ParsePayloadCacheRequest PC buf = Some None \<longleftrightarrow> length buf < 4)
   \<and> (4 \<le> length buf \<longrightarrow>
        (\<exists>n es. LittleEndian_Uint32 (take 4 buf) = Some n
           \<and> ParsePayloadCacheResponse PM buf
               = Some (Some \<lparr>NumEntries = n, Entries = es\<rparr>)
           \<and> length es \<le> unat n)
      \<and> (\<exists>n es. LittleEndian_Uint32 (take 4 buf) = Some n
           \<and> ParsePayloadCacheRequest PC buf
               = Some (Some \<lparr>UpdPayloadCacheRequest.NumEntries = n,
                              UpdPayloadCacheRequest.Entries = es\<rparr>)
           \<and> length es \<le> unat n))"
proof (cases "length buf < 4")
  case True
  then show ?thesis
    by (simp add: ParsePayloadCacheResponse_short ParsePayloadCacheRequest_short)
next
  case False
  then have l: "4 \<le> length buf" by simp
  then obtain n where n: "LittleEndian_Uint32 (take 4 buf) = Some n"
    using Uint32_total[of "take 4 buf"] by auto
  have r: "ParsePayloadCacheResponse PM buf
     = Some (Some \<lparr>NumEntries = n, Entries = parseable_prefix PM (unat n) (drop 4 buf)\<rparr>)"
    by (rule ParsePayloadCacheResponse_eq[OF l n])
  obtain b es where lp: "request_loop PC (unat n) (drop 4 buf, []) = Some (b, es)"
    and le: "length es \<le> length ([] :: 'b UpdRequestCacheEntry list) + unat n"
    using request_loop_total[of PC "unat n" "drop 4 buf" "[]"] by auto
  have q: "ParsePayloadCacheRequest PC buf
     = Some (Some \<lparr>UpdPayloadCacheRequest.NumEntries = n, UpdPayloadCacheRequest.Entries = es\<rparr>)"
    by (rule ParsePayloadCacheRequest_loop[OF l n lp])
  show ?thesis
    using False l n le length_parseable_prefix[of PM "unat n" "drop 4 buf"]
    by (simp add: r q)
qed

theorem ParsePayloadCache_nil_iff_short_witness:
  "(\<exists>es. ParsePayloadCacheResponse demo_ParseMessage [1, 0, 0, 0, 9]
            = Some (Some \<lparr>NumEntries = 1, Entries = es\<rparr>) \<and> length es \<le> 1)
   \<and> (\<exists>es. ParsePayloadCacheRequest demo_ParseContact [1, 0, 0, 0, 9]
            = Some (Some \<lparr>UpdPayloadCacheRequest.NumEntries = 1,
                           UpdPayloadCacheRequest.Entries = es\<rparr>) \<and> length es \<le> 1)"
proof -
  let ?buf = "[1, 0, 0, 0, 9] :: byte list"
  have l: "4 \<le> length ?buf" by simp
  have c: "LittleEndian_Uint32 (take 4 ?buf) = Some 1" by code_simp
  note T = ParsePayloadCache_nil_iff_short[of demo_ParseMessage ?buf demo_ParseContact,
      THEN conjunct2, THEN conjunct2, THEN mp, OF l]
  from T[THEN conjunct1] c
  have a: "\<exists>es. ParsePayloadCacheResponse demo_ParseMessage ?buf
            = Some (Some \<lparr>NumEntries = 1, Entries = es\<rparr>) \<and> length es \<le> 1"
    by auto
  from T[THEN conjunct2] c
  have b: "\<exists>es. ParsePayloadCacheRequest demo_ParseContact ?buf
            = Some (Some \<lparr>UpdPayloadCacheRequest.NumEntries = 1,
                           UpdPayloadCacheRequest.Entries = es\<rparr>) \<and> length es \<le> 1"
    by auto
  from a b show ?thesis by (rule conjI)
qed

section \<open>Properties of the list encoders\<close>

text \<open>
  C3 as stated (the count written is the length of \<open>Entries\<close>) fails: with
  \<open>NumEntries = 5\<close> and no entries both encoders write the count 5.
\<close>

theorem Bytes_count_ignores_Entries:
  "UpdPayloadCacheResponse_Bytes demo_MessageBytes \<lparr>NumEntries = 5, Entries = []\<rparr>
     = Some [5, 0, 0, 0]
   \<and> UpdPayloadCacheRequest_Bytes demo_ContactBytes
       \<lparr>UpdPayloadCacheRequest.NumEntries = 5, UpdPayloadCacheRequest.Entries = []\<rparr>
     = Some [5, 0, 0, 0]
   \<and> LittleEndian_Uint32 [5, 0, 0, 0] = Some 5"
  by code_simp

text \<open>
  C3, amended. The 4-byte count field written by \<open>Bytes\<close> of a cache request and of a
  cache response is the \<open>NumEntries\<close> field of the value, little-endian, whatever the
  length of \<open>Entries\<close> is.
\<close>

theorem Bytes_count_is_NumEntries:
  "(\<exists>out. UpdPayloadCacheResponse_Bytes MB r = Some out
       \<and> LittleEndian_Uint32 (take 4 out) = Some (UpdPayloadCacheResponse.NumEntries r))
   \<and> (\<forall>out. UpdPayloadCacheRequest_Bytes CB q = Some out \<longrightarrow>
         LittleEndian_Uint32 (take 4 out) = Some (UpdPayloadCacheRequest.NumEntries q))"
  by (auto simp: UpdPayloadCacheResponse_Bytes_eq UpdPayloadCacheRequest_Bytes_eq Uint32_le32
      split: if_splits)

theorem Bytes_count_is_NumEntries_witness:
  "LittleEndian_Uint32 (take 4 [7, 0, 0, 0]) = Some 7"
proof -
  have "UpdPayloadCacheRequest_Bytes demo_ContactBytes
       \<lparr>UpdPayloadCacheRequest.NumEntries = 7, UpdPayloadCacheRequest.Entries = []\<rparr>
     = Some [7, 0, 0, 0]"
    by code_simp
  from Bytes_count_is_NumEntries[THEN conjunct2, THEN spec, THEN mp, OF this]
  show ?thesis by simp
qed

section \<open>Panics\<close>

text \<open>
  C4 as stated (no encoder panics on any in-memory value) fails: \<open>UpdPayload.Bytes\<close>
  panics on \<open>DataLength = 1\<close> with a nil \<open>Data\<close>.
\<close>

theorem UpdPayload_Bytes_panics:
  "UpdPayload_Bytes \<lparr>Operation = 0, DataLength = 1, Data = \<lparr>elems = [], spare = []\<rparr>\<rparr> = None"
  by (simp add: UpdPayload_Bytes_eq)

text \<open>
  C4, amended. Every decoder returns on every byte buffer without a panic (the
  \<open>Contact\<close> and \<open>Message\<close> decoders being total), and \<open>UpdPayloadEntry.Bytes\<close> and
  \<open>UpdPayloadCacheResponse.Bytes\<close> return on every value. \<open>UpdPayload.Bytes\<close> returns
  exactly when \<open>DataLength\<close> does not exceed the capacity of \<open>Data\<close>, in particular
  whenever \<open>DataLength\<close> is at most \<open>len(Data)\<close>, and panics otherwise.
\<close>

theorem decoders_total_encoders_guarded:
  "(\<exists>r. ParseUpdPayload buf = Some r)
   \<and> (\<exists>r. ParsePayloadEntry PM buf = Some r)
   \<and> (\<exists>r. ParseCacheEntry PC buf = Some r)
   \<and> (\<exists>r. ParsePayloadCacheResponse PM buf = Some r)
   \<and> (\<exists>r. ParsePayloadCacheRequest PC buf = Some r)
   \<and> (\<exists>out. UpdPayloadEntry_Bytes MB e = Some out)
   \<and> (\<exists>out. UpdPayloadCacheResponse_Bytes MB r = Some out)
   \<and> ((\<exists>out. UpdPayload_Bytes u = Some out)
        \<longleftrightarrow> unat (DataLength u) \<le> length (elems (Data u)) + length (spare (Data u)))"
proof (intro conjI)
  show "\<exists>r. ParseUpdPayload buf = Some r" by (simp add: ParseUpdPayload_eq)
  show "\<exists>r. ParsePayloadEntry PM buf = Some r" by (rule ParsePayloadEntry_total)
  show "\<exists>r. ParseCacheEntry PC buf = Some r" by (rule ParseCacheEntry_total)
  show "\<exists>r. ParsePayloadCacheResponse PM buf = Some r" by (rule ParsePayloadCacheResponse_total)
  show "\<exists>r. ParsePayloadCacheRequest PC buf = Some r" by (rule ParsePayloadCacheRequest_total)
  show "\<exists>out. UpdPayloadEntry_Bytes MB e = Some out" by (simp add: UpdPayloadEntry_Bytes_eq)
  show "\<exists>out. UpdPayloadCacheResponse_Bytes MB r = Some out"
    by (simp add: UpdPayloadCacheResponse_Bytes_eq)
  show "(\<exists>out. UpdPayload_Bytes u = Some out)
        \<longleftrightarrow> unat (DataLength u) \<le> length (elems (Data u)) + length (spare (Data u))"
    by (simp add: UpdPayload_Bytes_eq)
qed

section \<open>A declared count larger than the entries present\<close>

text \<open>
  C7. When the buffer of a cache request declares more entries than it holds (complete
  entries on the wire, followed by the end of the buffer or by bytes that do not parse
  as an entry), \<open>ParsePayloadCacheRequest\<close> returns exactly the entries that are
  present, in order, and no error. The \<open>Contact\<close> codec is taken to decode the
  encoding of a contact in front of any remaining bytes, and to encode no contact as
  the empty byte string.
\<close>

theorem ParsePayloadCacheRequest_count_exceeds_entries:
  assumes "\<And>c rest. PC (CB c @ rest) = (Some c, rest)"
    and "\<And>c. CB c \<noteq> []"
    and "ParseCacheEntry PC tail = Some (None, r)"
    and "length es < unat n"
  shows "ParsePayloadCacheRequest PC (le32 n @ concat (map (request_entry_wire CB) es) @ tail)
     = Some (Some \<lparr>UpdPayloadCacheRequest.NumEntries = n, UpdPayloadCacheRequest.Entries = es\<rparr>)"
proof -
  let ?body = "concat (map (request_entry_wire CB) es) @ tail"
  have l: "4 \<le> length (le32 n @ ?body)" by simp
  have c: "LittleEndian_Uint32 (take 4 (le32 n @ ?body)) = Some n" by (simp add: Uint32_le32)
  have le: "length es \<le> unat n" using assms(4) by simp
  obtain b where "request_loop PC (unat n) (?body, []) = Some (b, [] @ es)"
    using request_loop_entries[of PC CB tail r es "unat n" "[]", OF assms(1) assms(2) assms(3) le]
    by auto
  then have lp: "request_loop PC (unat n) (drop 4 (le32 n @ ?body), []) = Some (b, es)" by simp
  show ?thesis by (rule ParsePayloadCacheRequest_loop[OF l c lp])
qed

theorem ParsePayloadCacheRequest_count_exceeds_entries_witness:
  "ParsePayloadCacheRequest demo_ParseContact
     [5, 0, 0, 0,
      7, 0, 0, 0, 0, 0, 0, 0,  0x43, 1, 0, 0, 0, 0,
      8, 0, 0, 0, 0, 0, 0, 0,  0x43, 2, 0, 0, 0, 0]
   = Some (Some \<lparr>UpdPayloadCacheRequest.NumEntries = 5,
                  UpdPayloadCacheRequest.Entries =
                    [\<lparr>SeqCounter = 7, Source = DemoContact 1\<rparr>,
                     \<lparr>SeqCounter = 8, Source = DemoContact 2\<rparr>]\<rparr>)"
proof -
  have t: "ParseCacheEntry demo_ParseContact [] = Some (None, [])"
    by (simp add: ParseCacheEntry_short)
  have n: "length [\<lparr>SeqCounter = 7, Source = DemoContact 1\<rparr>,
                   \<lparr>SeqCounter = 8, Source = DemoContact 2\<rparr>] < unat (5 :: 32 word)"
    by simp
  show ?thesis
    using ParsePayloadCacheRequest_count_exceeds_entries
      [of demo_ParseContact demo_ContactBytes "[]" "[]" _ 5,
       OF demo_contact_roundtrip demo_ContactBytes_nonempty t n]
    by (simp add: request_entry_wire_def le32_5 le64_7 le64_8)
qed

section \<open>Termination and progress\<close>

text \<open>
  C8 as stated (an iteration that skips an entry moves the cursor strictly forward)
  fails: an iteration of either list decoder that gets no entry leaves the buffer as
  it was.
\<close>

theorem skipped_entry_keeps_cursor:
  "request_iteration demo_ParseContact
       ([7, 0, 0, 0, 0, 0, 0, 0,  0xFF, 1, 0, 0, 0, 0], [])
     = Some (False, [7, 0, 0, 0, 0, 0, 0, 0,  0xFF, 1, 0, 0, 0, 0], [])
   \<and> response_iteration demo_ParseMessage ([2, 0, 0, 0, 0xFF, 0xFF], 0, [])
     = Some ([2, 0, 0, 0, 0xFF, 0xFF], 0, [])"
  by code_simp

text \<open>
  C8, amended. Every decode call returns on every input: the envelope decoder has no
  loop and each list decoder runs its loop body at most \<open>NumEntries\<close> times. An
  iteration of the response decoder that decodes an entry moves the cursor strictly
  forward, by at least the four bytes of the length prefix. An iteration of the request
  decoder that gets no entry leaves the buffer unchanged and does not leave the loop.
\<close>

theorem decode_returns_and_progress:
  "(\<exists>r. ParseUpdPayload buf = Some r)
   \<and> (\<exists>r. ParsePayloadCacheResponse PM buf = Some r)
   \<and> (\<exists>r. ParsePayloadCacheRequest PC buf = Some r)
   \<and> (idx \<le> length b \<and> response_iteration PM (b, idx, es) = Some (b', idx', es')
        \<and> es' \<noteq> es \<longrightarrow> idx' = 0 \<and> length b' + 4 \<le> length b - idx)
   \<and> (request_iteration PC (c, qs) = Some (brk, c', qs') \<and> qs' = qs \<longrightarrow> c' = c \<and> \<not> brk)"
proof (intro conjI impI)
  show "\<exists>r. ParseUpdPayload buf = Some r" by (simp add: ParseUpdPayload_eq)
  show "\<exists>r. ParsePayloadCacheResponse PM buf = Some r" by (rule ParsePayloadCacheResponse_total)
  show "\<exists>r. ParsePayloadCacheRequest PC buf = Some r" by (rule ParsePayloadCacheRequest_total)
next
  assume "idx \<le> length b \<and> response_iteration PM (b, idx, es) = Some (b', idx', es')
        \<and> es' \<noteq> es"
  then have p: "idx' = 0 \<and> length b' + 4 \<le> length b - idx"
    using response_iteration_progress[of idx b PM es b' idx' es'] by blast
  from p show "idx' = 0" ..
  from p show "length b' + 4 \<le> length b - idx" ..
next
  assume "request_iteration PC (c, qs) = Some (brk, c', qs') \<and> qs' = qs"
  then have p: "c' = c \<and> \<not> brk"
    using request_iteration_skip[of PC c qs brk c' qs'] by blast
  from p show "c' = c" ..
  from p show "\<not> brk" ..
qed

theorem decode_returns_and_progress_witness:
  "response_iteration demo_ParseMessage ([2, 0, 0, 0, 0x4D, 1, 9], 0, [])
     = Some ([9], 0, [\<lparr>Length = 2, Message = DemoMessage 1\<rparr>])
   \<and> length [9 :: byte] + 4 \<le> length [2, 0, 0, 0, 0x4D, 1, 9 :: byte] - 0"
proof -
  have e: "response_iteration demo_ParseMessage ([2, 0, 0, 0, 0x4D, 1, 9], 0, [])
     = Some ([9], 0, [\<lparr>Length = 2, Message = DemoMessage 1\<rparr>])"
    by code_simp
  have h: "0 \<le> length [2, 0, 0, 0, 0x4D, 1, 9 :: byte]
      \<and> response_iteration demo_ParseMessage ([2, 0, 0, 0, 0x4D, 1, 9], 0, [])
          = Some ([9], 0, [\<lparr>Length = 2, Message = DemoMessage 1\<rparr>])
      \<and> [\<lparr>Length = 2, Message = DemoMessage 1\<rparr>] \<noteq> []"
    using e by simp
  from decode_returns_and_progress[THEN conjunct2, THEN conjunct2, THEN conjunct2,
      THEN conjunct1, THEN mp, OF h]
  have "length [9 :: byte] + 4 \<le> length [2, 0, 0, 0, 0x4D, 1, 9 :: byte] - 0" by (rule conjunct2)
  with e show ?thesis by (rule conjI)
qed

section \<open>Round trips\<close>

text \<open>
  C5 as stated (every value with \<open>NumEntries = len(Entries)\<close> decodes from its own
  encoding) fails, with codecs that round-trip: a cache request with one entry decodes
  to no entry, and a cache response whose entry has a \<open>Length\<close> field other than the
  length of its message comes back with the \<open>Length\<close> on the wire.
\<close>

theorem roundtrip_fails_for_request_and_stale_Length:
  "UpdPayloadCacheRequest_Bytes demo_ContactBytes
       \<lparr>UpdPayloadCacheRequest.NumEntries = 1,
        UpdPayloadCacheRequest.Entries = [\<lparr>SeqCounter = 7, Source = DemoContact 1\<rparr>]\<rparr>
     = Some [1, 0, 0, 0,  7, 0, 0, 0, 0, 0, 0, 0,  0x43, 1]
   \<and> ParsePayloadCacheRequest demo_ParseContact [1, 0, 0, 0,  7, 0, 0, 0, 0, 0, 0, 0,  0x43, 1]
     = Some (Some \<lparr>UpdPayloadCacheRequest.NumEntries = 1, UpdPayloadCacheRequest.Entries = []\<rparr>)
   \<and> UpdPayloadCacheResponse_Bytes demo_MessageBytes
       \<lparr>NumEntries = 1, Entries = [\<lparr>Length = 0, Message = DemoMessage 1\<rparr>]\<rparr>
     = Some [1, 0, 0, 0,  2, 0, 0, 0,  0x4D, 1]
   \<and> ParsePayloadCacheResponse demo_ParseMessage [1, 0, 0, 0,  2, 0, 0, 0,  0x4D, 1]
     = Some (Some \<lparr>NumEntries = 1, Entries = [\<lparr>Length = 2, Message = DemoMessage 1\<rparr>]\<rparr>)"
  by code_simp

text \<open>
  C5, amended. Decoding the encoding of \<open>v\<close> yields \<open>v\<close>, list order preserved,
  for every envelope with \<open>DataLength = len(Data)\<close> (the decoded \<open>Data\<close> has the same
  bytes and no spare capacity), and for every cache response with
  \<open>NumEntries = len(Entries)\<close> whose entries each have \<open>Length\<close> equal to the length of
  the encoded message, given a \<open>Message\<close> decoder that returns \<open>m\<close> on every buffer
  that starts with the encoding of \<open>m\<close>.
\<close>

theorem roundtrip_envelope_and_response:
  "(unat (DataLength u) = length (elems (Data u)) \<longrightarrow>
      (\<exists>out. UpdPayload_Bytes u = Some out
         \<and> ParseUpdPayload out
             = Some (Inr \<lparr>Operation = Operation u, DataLength = DataLength u,
                          Data = \<lparr>elems = elems (Data u), spare = []\<rparr>\<rparr>)))
   \<and> ((\<forall>m rest. PM (MB m @ rest) = Some m)
        \<and> unat (UpdPayloadCacheResponse.NumEntries r)
            = length (UpdPayloadCacheResponse.Entries r)
        \<and> (\<forall>e \<in> set (UpdPayloadCacheResponse.Entries r).
              unat (Length e) = length (MB (Message e))) \<longrightarrow>
      (\<exists>out. UpdPayloadCacheResponse_Bytes MB r = Some out
         \<and> ParsePayloadCacheResponse PM out = Some (Some r)))"
  using UpdPayload_roundtrip[of u] UpdPayloadCacheResponse_roundtrip[of PM MB r]
  by blast

theorem roundtrip_envelope_and_response_witness:
  "(\<exists>out. UpdPayload_Bytes \<lparr>Operation = 1, DataLength = 2,
                              Data = \<lparr>elems = [7, 8], spare = []\<rparr>\<rparr> = Some out
       \<and> ParseUpdPayload out
           = Some (Inr \<lparr>Operation = 1, DataLength = 2, Data = \<lparr>elems = [7, 8], spare = []\<rparr>\<rparr>))
   \<and> (\<exists>out. UpdPayloadCacheResponse_Bytes demo_MessageBytes
                \<lparr>NumEntries = 2, Entries = [\<lparr>Length = 2, Message = DemoMessage 1\<rparr>,
                                             \<lparr>Length = 2, Message = DemoMessage 2\<rparr>]\<rparr> = Some out
       \<and> ParsePayloadCacheResponse demo_ParseMessage out
           = Some (Some \<lparr>NumEntries = 2, Entries = [\<lparr>Length = 2, Message = DemoMessage 1\<rparr>,
                                                    \<lparr>Length = 2, Message = DemoMessage 2\<rparr>]\<rparr>))"
proof -
  let ?u = "\<lparr>Operation = 1, DataLength = 2, Data = \<lparr>elems = [7, 8], spare = []\<rparr>\<rparr>"
  let ?r = "\<lparr>NumEntries = 2, Entries = [\<lparr>Length = 2, Message = DemoMessage 1\<rparr>,
                                         \<lparr>Length = 2, Message = DemoMessage 2\<rparr>]\<rparr>"
  note T = roundtrip_envelope_and_response[of ?u demo_ParseMessage demo_MessageBytes ?r]
  have h1: "unat (DataLength ?u) = length (elems (Data ?u))" by simp
  have h2: "(\<forall>m rest. demo_ParseMessage (demo_MessageBytes m @ rest) = Some m)
        \<and> unat (UpdPayloadCacheResponse.NumEntries ?r)
            = length (UpdPayloadCacheResponse.Entries ?r)
        \<and> (\<forall>e \<in> set (UpdPayloadCacheResponse.Entries ?r).
              unat (Length e) = length (demo_MessageBytes (Message e)))"
    by (simp add: demo_message_roundtrip)
  have a: "\<exists>out. UpdPayload_Bytes ?u = Some out \<and> ParseUpdPayload out = Some (Inr ?u)"
    using T[THEN conjunct1, THEN mp, OF h1] by simp
  have b: "\<exists>out. UpdPayloadCacheResponse_Bytes demo_MessageBytes ?r = Some out
       \<and> ParsePayloadCacheResponse demo_ParseMessage out = Some (Some ?r)"
    using T[THEN conjunct2, THEN mp, OF h2] .
  from a b show ?thesis by (rule conjI)
qed

end
